theory Spec2Isabelle
  imports Complex_Main "HOL-Library.AList"
begin

section \<open>Values shared by the two services\<close>

text \<open>
  The repository holds two Flask services that share one memcache: \<^verbatim>\<open>default/main.py\<close>
  (the selection engine, which only reads the cache) and \<^verbatim>\<open>worker/main.py\<close> (the
  population worker and the invalidation scheduler, which read and write it).

  Exceptions are values of \<open>error\<close>; a function that can raise returns \<open>error + 'a\<close> with
  \<open>Inl\<close> for the exception. \<open>CacheError\<close> stands for whatever the memcache client raises,
  \<open>UpstreamError\<close> for whatever the catalog client raises, \<open>BadRequestKeyError\<close> for a missing
  form field.
\<close>

datatype error =
    IndexError
  | KeyError
  | ZeroDivisionError
  | BadRequestKeyError
  | CacheError
  | UpstreamError

text \<open>
  What memcache holds under a key: the worker stores a list of tag slugs under the two
  \<^verbatim>\<open>_tags\<close> keys and a string under the \<^verbatim>\<open>_title\<close> and \<^verbatim>\<open>_name\<close> keys. A Python value that
  may be \<^verbatim>\<open>None\<close> is an \<open>option\<close>.
\<close>

datatype cval = TagList "string list" | Text string

text \<open>Python truthiness of a stored value: an empty list and an empty string are falsy.\<close>

fun truthy :: "cval \<Rightarrow> bool" where
  "truthy (TagList ts) = (ts \<noteq> [])"
| "truthy (Text s) = (s \<noteq> [])"

text \<open>Iterating a stored value: a list yields its items, a string its one-character strings.\<close>

fun elements :: "cval \<Rightarrow> string list" where
  "elements (TagList ts) = ts"
| "elements (Text s) = map (\<lambda>c. [c]) s"

text \<open>\<^verbatim>\<open>x or y\<close> for a value \<open>x\<close> that may be \<^verbatim>\<open>None\<close>.\<close>

fun py_or :: "cval option \<Rightarrow> cval \<Rightarrow> cval" where
  "py_or None d = d"
| "py_or (Some v) d = (if truthy v then v else d)"

definition is_not_None :: "'a option \<Rightarrow> bool" where
  "is_not_None x = (x \<noteq> None)"

section \<open>worker/main.py\<close>

subsection \<open>The world the worker acts on\<close>

text \<open>
  The worker's effects are kept in a record: the memcache contents (key to value and the
  \<^verbatim>\<open>time=\<close> it was stored with), the log of \<^verbatim>\<open>set\<close> calls in the order they were made, and the
  log of slugs asked of the catalog provider.

  Memcache reads \<^verbatim>\<open>time=\<close> as a number of seconds from now only up to one month,
  \<^verbatim>\<open>86400 * 30\<close>; a larger value is an absolute Unix time. The values the worker passes are
  below \<^verbatim>\<open>86400 * 31\<close>, so one above the limit is a moment in early 1970, long past on any
  clock: the entry is expired as soon as it is set, and the key reads as absent from then
  on. Up to the limit the store keeps the entry until it is overwritten: the time between
  two calls and eviction are not modelled. A \<^verbatim>\<open>set\<close> and a \<^verbatim>\<open>get\<close> of the worker never raise.
\<close>

record world =
  store :: "string \<rightharpoonup> (cval \<times> int)"
  set_calls :: "(string \<times> cval \<times> int) list"
  detail_queries :: "string list"

definition memcache_get :: "world \<Rightarrow> string \<Rightarrow> cval option" where
  "memcache_get w k = map_option fst (store w k)"

definition memcache_set :: "string \<Rightarrow> cval \<Rightarrow> int \<Rightarrow> world \<Rightarrow> world" where
  "memcache_set k v t w =
     w\<lparr>store := (if 86400 * 30 < t then (store w)(k := None) else (store w)(k \<mapsto> (v, t))),
       set_calls := set_calls w @ [(k, v, t)]\<rparr>"

record topic_tag =
  tag_name :: string
  tag_slug :: string

record question_detail =
  title :: string
  topic_tags :: "topic_tag list"

text \<open>
  \<^verbatim>\<open>get_problem_detail\<close>: one GraphQL request to the catalog provider, which answers with the
  question or raises. The provider is a parameter; the request is logged.
\<close>

definition get_problem_detail ::
  "(string \<Rightarrow> error + question_detail) \<Rightarrow> string \<Rightarrow> world \<Rightarrow> (error + question_detail) \<times> world" where
  "get_problem_detail provider slug w =
     (provider slug, w\<lparr>detail_queries := detail_queries w @ [slug]\<rparr>)"

subsection \<open>The completeness check\<close>

definition check_cache_tag :: "world \<Rightarrow> string \<Rightarrow> bool" where
  "check_cache_tag w slug = is_not_None (memcache_get w (''tag_'' @ slug @ ''_name''))"

text \<open>
  \<^verbatim>\<open>check_cache_problem\<close> is a chain of \<^verbatim>\<open>and\<close>, which stops at the first false operand.
  Its third operand is \<^verbatim>\<open>all(...) is not None\<close>: \<^verbatim>\<open>all\<close> runs over the tags stored under
  \<^verbatim>\<open>problem_{slug}_tags\<close> (present at that point, the operand before has just read it) and
  returns a bool, and it is that bool which is compared with \<^verbatim>\<open>None\<close>.
\<close>

definition check_cache_problem :: "world \<Rightarrow> string \<Rightarrow> bool" where
  "check_cache_problem w slug =
     (if \<not> is_not_None (memcache_get w (slug @ ''_tags'')) then False
      else if \<not> is_not_None (memcache_get w (''problem_'' @ slug @ ''_tags'')) then False
      else if \<not> is_not_None
                 (Some (list_all (check_cache_tag w)
                    (case memcache_get w (''problem_'' @ slug @ ''_tags'') of
                       None \<Rightarrow> []
                     | Some v \<Rightarrow> elements v))) then False
      else is_not_None (memcache_get w (''problem_'' @ slug @ ''_title'')))"

subsection \<open>The population worker\<close>

text \<open>
  \<^verbatim>\<open>random.randint(a, b)\<close> is \<^verbatim>\<open>a + randbelow(b - a + 1)\<close>; the raw draw \<open>r\<close> is a parameter, so
  that a statement for all \<open>r\<close> covers every draw.
\<close>

definition randint :: "int \<Rightarrow> int \<Rightarrow> nat \<Rightarrow> int" where
  "randint a b r = a + int (r mod nat (b - a + 1))"

record task_request =
  queue_name :: "string option"
  form_slug :: "string option"

fun write_tag_names :: "topic_tag list \<Rightarrow> int \<Rightarrow> world \<Rightarrow> world" where
  "write_tag_names [] cache_for w = w"
| "write_tag_names (tag # tags) cache_for w =
     write_tag_names tags cache_for
       (memcache_set (''tag_'' @ tag_slug tag @ ''_name'') (Text (tag_name tag)) cache_for w)"

text \<open>
  \<^verbatim>\<open>invalidate_cache\<close>: the answer (or the exception) and the world afterwards. The header
  \<^verbatim>\<open>X-AppEngine-QueueName\<close> counts as missing when it is absent or empty.
\<close>

definition invalidate_cache ::
  "(string \<Rightarrow> error + question_detail) \<Rightarrow> nat \<Rightarrow> task_request \<Rightarrow> world
     \<Rightarrow> (error + string \<times> nat) \<times> world" where
  "invalidate_cache provider r req w =
     (if queue_name req = None \<or> queue_name req = Some [] then (Inr (''FAIL'', 403), w)
      else
        let cache_for = 86400 * 30 + randint (- 86400) 86400 r in
        case form_slug req of
          None \<Rightarrow> (Inl BadRequestKeyError, w)
        | Some slug \<Rightarrow>
            if check_cache_problem w slug then (Inr (''OK'', 200), w)
            else
              (case get_problem_detail provider slug w of
                 (Inl e, w1) \<Rightarrow> (Inl e, w1)
               | (Inr detail, w1) \<Rightarrow>
                   let tags = map tag_slug (topic_tags detail);
                       w2 = write_tag_names (topic_tags detail) cache_for w1;
                       w3 = memcache_set (slug @ ''_tags'') (TagList tags) cache_for w2;
                       w4 = memcache_set (''problem_'' @ slug @ ''_tags'') (TagList tags)
                              cache_for w3;
                       w5 = memcache_set (''problem_'' @ slug @ ''_title'')
                              (Text (title detail)) cache_for w4
                   in (Inr (''OK'', 200), w5)))"

section \<open>default/main.py\<close>

subsection \<open>Input and cache reads\<close>

text \<open>
  The form has parsed and checked the posted JSON before \<^verbatim>\<open>interpret\<close> runs: every item of
  \<^verbatim>\<open>stat_status_pairs\<close> has \<^verbatim>\<open>stat.question__title_slug\<close>, a string. Nothing checks the
  \<^verbatim>\<open>status\<close> key, so it may be missing (\<open>None\<close>), and \<^verbatim>\<open>pair["status"]\<close> then raises.
\<close>

datatype jvalue = JNull | JBool bool | JNum int | JStr string

record stat_status_pair =
  question__title_slug :: string
  status :: "jvalue option"

text \<open>
  The selection engine only reads memcache. A read answers with the stored value, with
  \<^verbatim>\<open>None\<close>, or raises; each key is read at most once in a request, so a function of the key
  describes every behaviour of the cache during the request.
\<close>

type_synonym cache_reader = "string \<Rightarrow> error + cval option"

text \<open>
  \<^verbatim>\<open>get_tags\<close>: the read sits inside \<^verbatim>\<open>try ... except Exception\<close>, which leaves \<^verbatim>\<open>tags\<close> at its
  initial \<^verbatim>\<open>[]\<close>; \<^verbatim>\<open>asyncio.gather\<close> collects the results in order and raises the first
  exception of a task.
\<close>

definition get_tags :: "cache_reader \<Rightarrow> string \<Rightarrow> error + cval" where
  "get_tags get slug =
     (case get (slug @ ''_tags'') of
        Inl e \<Rightarrow> Inr (TagList [])
      | Inr v \<Rightarrow> Inr (py_or v (TagList [])))"

fun gather :: "(error + 'a) list \<Rightarrow> error + 'a list" where
  "gather [] = Inr []"
| "gather (r # rs) =
     (case r of
        Inl e \<Rightarrow> Inl e
      | Inr v \<Rightarrow> (case gather rs of Inl e \<Rightarrow> Inl e | Inr vs \<Rightarrow> Inr (v # vs)))"

subsection \<open>Dictionaries and sets\<close>

text \<open>
  A Python dict keeps its keys in insertion order, and storing under a key that exists
  replaces the value where it stands: an association list with \<open>AList.update\<close>. A Python
  set is a list without duplicates, \<^verbatim>\<open>add\<close> is \<open>List.insert\<close>; the order of the list stands
  for the order in which Python would iterate the set, which the source does not depend on
  but for the random pick (see \<open>choice\<close>).
\<close>

fun solved_status_items ::
  "stat_status_pair list \<Rightarrow> (string \<times> bool) list \<Rightarrow> error + (string \<times> bool) list" where
  "solved_status_items [] d = Inr d"
| "solved_status_items (pair # pairs) d =
     (case status pair of
        None \<Rightarrow> Inl KeyError
      | Some st \<Rightarrow>
          solved_status_items pairs
            (AList.update (question__title_slug pair) (st = JStr ''ac'') d))"

definition slug_to_solved_status :: "stat_status_pair list \<Rightarrow> error + (string \<times> bool) list" where
  "slug_to_solved_status pairs = solved_status_items pairs []"

fun dict_of :: "('k \<times> 'v) list \<Rightarrow> ('k \<times> 'v) list \<Rightarrow> ('k \<times> 'v) list" where
  "dict_of [] d = d"
| "dict_of (kv # kvs) d = dict_of kvs (AList.update (fst kv) (snd kv) d)"

record tag_info =
  solved :: "string list"
  left :: "string list"

definition setdefault ::
  "string \<Rightarrow> tag_info \<Rightarrow> (string \<times> tag_info) list \<Rightarrow> (string \<times> tag_info) list" where
  "setdefault k d m = AList.map_default k d (\<lambda>v. v) m"

subsection \<open>Aggregation\<close>

text \<open>The inner loop over the tags of one problem, and the outer loop over the problems.\<close>

fun add_to_tags ::
  "string \<Rightarrow> bool \<Rightarrow> string list \<Rightarrow> (string \<times> tag_info) list \<Rightarrow> (string \<times> tag_info) list" where
  "add_to_tags slug is_solved [] m = m"
| "add_to_tags slug is_solved (tag # tags) m =
     (let m1 = setdefault tag \<lparr>solved = [], left = []\<rparr> m;
          m2 = (if is_solved
                then AList.map_entry tag (\<lambda>ti. ti\<lparr>solved := List.insert slug (solved ti)\<rparr>) m1
                else AList.map_entry tag (\<lambda>ti. ti\<lparr>left := List.insert slug (left ti)\<rparr>) m1)
      in add_to_tags slug is_solved tags m2)"

fun aggregate ::
  "(string \<times> bool) list \<Rightarrow> (string \<times> cval) list \<Rightarrow> (string \<times> tag_info) list
     \<Rightarrow> error + (string \<times> tag_info) list" where
  "aggregate [] problem_to_tags m = Inr m"
| "aggregate (item # items) problem_to_tags m =
     (case map_of problem_to_tags (fst item) of
        None \<Rightarrow> Inl KeyError
      | Some tags \<Rightarrow>
          aggregate items problem_to_tags (add_to_tags (fst item) (snd item) (elements tags) m))"

text \<open>
  The first half of \<^verbatim>\<open>interpret\<close>, up to the aggregation map: the tag lists are fetched for
  the keys of the status dict, zipped into \<^verbatim>\<open>problem_to_tags\<close>, and aggregated.
\<close>

definition problem_to_tags_of :: "cache_reader \<Rightarrow> (string \<times> bool) list \<Rightarrow> error + (string \<times> cval) list" where
  "problem_to_tags_of get status_map =
     (let all_problems = map fst status_map in
      case gather (map (get_tags get) all_problems) of
        Inl e \<Rightarrow> Inl e
      | Inr results \<Rightarrow> Inr (dict_of (zip all_problems results) []))"

definition tag_info_map_of ::
  "cache_reader \<Rightarrow> (string \<times> bool) list \<Rightarrow> error + (string \<times> tag_info) list" where
  "tag_info_map_of get status_map =
     (case problem_to_tags_of get status_map of
        Inl e \<Rightarrow> Inl e
      | Inr problem_to_tags \<Rightarrow> aggregate status_map problem_to_tags [])"

subsection \<open>Ratio order\<close>

text \<open>
  The sort key \<^verbatim>\<open>len(solved) / (len(solved) + len(left))\<close> raises on a zero denominator.
  Python computes the quotient as a float; here it is the exact rational. Float division
  rounds the exact quotient to the nearest float and rounding is monotone, so the float
  order is the rational order but for distinct quotients so close that they round to one
  float, which then count as a tie; \<^verbatim>\<open>sorted\<close> is stable, as \<open>sort_key\<close> is, and evaluates
  the key of every item before it orders them.
\<close>

definition ratio_key :: "tag_info \<Rightarrow> error + rat" where
  "ratio_key ti =
     (if length (solved ti) + length (left ti) = 0 then Inl ZeroDivisionError
      else Inr (of_nat (length (solved ti)) / of_nat (length (solved ti) + length (left ti))))"

fun keyed :: "(string \<times> tag_info) list \<Rightarrow> error + (rat \<times> string \<times> tag_info) list" where
  "keyed [] = Inr []"
| "keyed (item # items) =
     (case ratio_key (snd item) of
        Inl e \<Rightarrow> Inl e
      | Inr k \<Rightarrow> (case keyed items of Inl e \<Rightarrow> Inl e | Inr ks \<Rightarrow> Inr ((k, item) # ks)))"

definition sorted_by_ratio ::
  "(string \<times> tag_info) list \<Rightarrow> error + (string \<times> tag_info) list" where
  "sorted_by_ratio m =
     (case keyed m of Inl e \<Rightarrow> Inl e | Inr ks \<Rightarrow> Inr (map snd (sort_key fst ks)))"

subsection \<open>The selection loop\<close>

text \<open>
  \<^verbatim>\<open>random.choice(seq)\<close> is \<^verbatim>\<open>seq[randbelow(len(seq))]\<close> and raises \<^verbatim>\<open>IndexError\<close> on an empty
  sequence. The raw draws are a parameter: \<open>draws k\<close> is the draw of the \<open>k\<close>-th call, and a
  statement for all \<open>draws\<close> covers every pick from every iteration order of the set.
\<close>

definition choice :: "nat \<Rightarrow> string list \<Rightarrow> error + string" where
  "choice r xs = (if xs = [] then Inl IndexError else Inr (xs ! (r mod length xs)))"

record selection =
  to_solve_tasks :: "string list"
  to_solve :: string
  tag_progress :: "(string \<times> rat) list"
  draws_used :: nat

text \<open>One pass of the loop body for the item \<open>(name, tag_info)\<close>.\<close>

definition narrow_step ::
  "(nat \<Rightarrow> nat) \<Rightarrow> string \<times> tag_info \<Rightarrow> selection \<Rightarrow> error + selection" where
  "narrow_step draws item st =
     (let tasks = filter (\<lambda>s. s \<in> set (left (snd item))) (to_solve_tasks st) in
      case (if tasks \<noteq> [] then choice (draws (draws_used st)) tasks else Inr (to_solve st)) of
        Inl e \<Rightarrow> Inl e
      | Inr pick \<Rightarrow>
          (case ratio_key (snd item) of
             Inl e \<Rightarrow> Inl e
           | Inr ratio \<Rightarrow>
               Inr \<lparr>to_solve_tasks = tasks,
                    to_solve = pick,
                    tag_progress = AList.update (fst item) (ratio * 100) (tag_progress st),
                    draws_used = (if tasks \<noteq> [] then Suc (draws_used st) else draws_used st)\<rparr>))"

fun narrow ::
  "(nat \<Rightarrow> nat) \<Rightarrow> (string \<times> tag_info) list \<Rightarrow> selection \<Rightarrow> error + selection" where
  "narrow draws [] st = Inr st"
| "narrow draws (item # items) st =
     (case narrow_step draws item st of Inl e \<Rightarrow> Inl e | Inr st' \<Rightarrow> narrow draws items st')"

subsection \<open>The answer\<close>

fun tag_names ::
  "cache_reader \<Rightarrow> string list \<Rightarrow> (string \<times> cval) list \<Rightarrow> error + (string \<times> cval) list" where
  "tag_names get [] d = Inr d"
| "tag_names get (slug # slugs) d =
     (case get (''tag_'' @ slug @ ''_name'') of
        Inl e \<Rightarrow> Inl e
      | Inr v \<Rightarrow> tag_names get slugs (AList.update slug (py_or v (Text slug)) d))"

text \<open>The arguments handed to \<^verbatim>\<open>render_template("interpret.html", ...)\<close>.\<close>

record rendered =
  page_to_solve :: string
  page_to_solve_name :: cval
  page_tag_progress :: "(string \<times> rat) list"
  page_tag_to_name :: "(string \<times> cval) list"

definition "interpret" ::
  "cache_reader \<Rightarrow> (nat \<Rightarrow> nat) \<Rightarrow> stat_status_pair list \<Rightarrow> error + rendered \<times> nat" where
  "interpret get draws pairs =
     (case slug_to_solved_status pairs of
        Inl e \<Rightarrow> Inl e
      | Inr status_map \<Rightarrow>
     (case tag_info_map_of get status_map of
        Inl e \<Rightarrow> Inl e
      | Inr tag_info_map \<Rightarrow>
     (case choice (draws 0) (map fst status_map) of
        Inl e \<Rightarrow> Inl e
      | Inr first_pick \<Rightarrow>
     (case sorted_by_ratio tag_info_map of
        Inl e \<Rightarrow> Inl e
      | Inr items \<Rightarrow>
     (case narrow draws items
             \<lparr>to_solve_tasks = map fst status_map, to_solve = first_pick,
              tag_progress = [], draws_used = 1\<rparr> of
        Inl e \<Rightarrow> Inl e
      | Inr st \<Rightarrow>
     (case get (''problem_'' @ to_solve st @ ''_title'') of
        Inl e \<Rightarrow> Inl e
      | Inr v \<Rightarrow>
     (case tag_names get (map fst (tag_progress st)) [] of
        Inl e \<Rightarrow> Inl e
      | Inr tag_to_name \<Rightarrow>
          Inr (\<lparr>page_to_solve = to_solve st,
                page_to_solve_name = py_or v (Text (to_solve st)),
                page_tag_progress = tag_progress st,
                page_tag_to_name = tag_to_name\<rparr>, 200))))))))"

subsection \<open>The route\<close>

text \<open>
  \<^verbatim>\<open>validate_problems\<close> on the parsed items: what remains to check of an item is that its slug
  matches \<^verbatim>\<open>[a-z0-9][a-z0-9-]*[a-z0-9]\<close> at its start (\<^verbatim>\<open>re.match\<close>): a first character of
  \<^verbatim>\<open>[a-z0-9]\<close>, then any run of hyphens and at last one more character of \<^verbatim>\<open>[a-z0-9]\<close>.
\<close>

definition lower_or_digit :: "char \<Rightarrow> bool" where
  "lower_or_digit c = (c \<in> set ''abcdefghijklmnopqrstuvwxyz0123456789'')"

fun match_rest :: "string \<Rightarrow> bool" where
  "match_rest [] = False"
| "match_rest (c # cs) = (lower_or_digit c \<or> (c = CHR ''-'' \<and> match_rest cs))"

fun slug_matches :: "string \<Rightarrow> bool" where
  "slug_matches [] = False"
| "slug_matches (c # cs) = (lower_or_digit c \<and> match_rest cs)"

definition validate_problems :: "stat_status_pair list \<Rightarrow> bool" where
  "validate_problems pairs = list_all (\<lambda>pair. slug_matches (question__title_slug pair)) pairs"

datatype http_method = GET | POST

datatype response = InterpretPage rendered nat | MainPage

definition main ::
  "cache_reader \<Rightarrow> (nat \<Rightarrow> nat) \<Rightarrow> http_method \<Rightarrow> stat_status_pair list \<Rightarrow> error + response" where
  "main get draws method pairs =
     (if method = POST \<and> validate_problems pairs
      then (case interpret get draws pairs of
              Inl e \<Rightarrow> Inl e
            | Inr answer \<Rightarrow> Inr (InterpretPage (fst answer) (snd answer)))
      else Inr MainPage)"

section \<open>Notions used in the statements\<close>


text \<open>
  The value \<^verbatim>\<open>get_tags\<close> returns for a slug; the members of a tag's two sets, by tag; the
  condition that the two lists of every tag are without duplicates (they stand for sets);
  the exact quotient that \<open>ratio_key\<close> computes when the tag has a problem.
\<close>

definition cached_tags :: "cache_reader \<Rightarrow> string \<Rightarrow> cval" where
  "cached_tags get slug =
     (case get (slug @ ''_tags'') of Inl e \<Rightarrow> TagList [] | Inr v \<Rightarrow> py_or v (TagList []))"

definition solved_of :: "(string \<times> tag_info) list \<Rightarrow> string \<Rightarrow> string set" where
  "solved_of m t = (case map_of m t of None \<Rightarrow> {} | Some ti \<Rightarrow> set (solved ti))"

definition left_of :: "(string \<times> tag_info) list \<Rightarrow> string \<Rightarrow> string set" where
  "left_of m t = (case map_of m t of None \<Rightarrow> {} | Some ti \<Rightarrow> set (left ti))"

definition sets_distinct :: "(string \<times> tag_info) list \<Rightarrow> bool" where
  "sets_distinct m = (\<forall>t ti. map_of m t = Some ti \<longrightarrow> distinct (solved ti) \<and> distinct (left ti))"

text \<open>
  In the words of the specification: the last item of the submitted list, in input order,
  that carries a given slug.
\<close>

fun last_occurrence :: "stat_status_pair list \<Rightarrow> string \<Rightarrow> stat_status_pair option" where
  "last_occurrence [] s = None"
| "last_occurrence (p # ps) s =
     (case last_occurrence ps s of
        Some q \<Rightarrow> Some q
      | None \<Rightarrow> if question__title_slug p = s then Some p else None)"

definition ratio_of :: "tag_info \<Rightarrow> rat" where
  "ratio_of ti = of_nat (length (solved ti)) / of_nat (length (solved ti) + length (left ti))"

definition nonempty_tag :: "tag_info \<Rightarrow> bool" where
  "nonempty_tag ti = (0 < length (solved ti) + length (left ti))"

section \<open>Concrete inputs\<close>

text \<open>Inputs on which the definitions are run further down.\<close>

definition empty_world :: world where
  "empty_world = \<lparr>store = Map.empty, set_calls = [], detail_queries = []\<rparr>"

definition catalog :: "string \<Rightarrow> error + question_detail" where
  "catalog slug =
     (if slug = ''two-sum''
      then Inr \<lparr>title = ''Two Sum'',
                topic_tags = [\<lparr>tag_name = ''Array'', tag_slug = ''array''\<rparr>,
                              \<lparr>tag_name = ''Hash Table'', tag_slug = ''hash-table''\<rparr>]\<rparr>
      else Inl UpstreamError)"

definition catalog_down :: "string \<Rightarrow> error + question_detail" where
  "catalog_down slug = Inl UpstreamError"

definition two_sum_task :: task_request where
  "two_sum_task = \<lparr>queue_name = Some ''default'', form_slug = Some ''two-sum''\<rparr>"

text \<open>
  A cache that holds both tag lists and the title of problem \<^verbatim>\<open>p\<close>, whose only tag is \<^verbatim>\<open>t\<close>,
  and no \<^verbatim>\<open>tag_t_name\<close>.
\<close>

definition nameless_tag_world :: world where
  "nameless_tag_world =
     \<lparr>store = [''p_tags'' \<mapsto> (TagList [''t''], 2592000),
               ''problem_p_tags'' \<mapsto> (TagList [''t''], 2592000),
               ''problem_p_title'' \<mapsto> (Text ''P'', 2592000)],
      set_calls = [], detail_queries = []\<rparr>"

text \<open>
  The scenario of the specification: \<^verbatim>\<open>a\<close> unsolved with tag \<^verbatim>\<open>dp\<close>, \<^verbatim>\<open>b\<close> solved with tags
  \<^verbatim>\<open>dp\<close> and \<^verbatim>\<open>greedy\<close>; the same cache with a failing read for \<^verbatim>\<open>a\<close>; a history that lists
  \<^verbatim>\<open>a\<close> twice, solved first and unsolved last.
\<close>

definition scenario_cache :: cache_reader where
  "scenario_cache k =
     (if k = ''a_tags'' then Inr (Some (TagList [''dp'']))
      else if k = ''b_tags'' then Inr (Some (TagList [''dp'', ''greedy'']))
      else if k = ''tag_dp_name'' then Inr (Some (Text ''Dynamic Programming''))
      else if k = ''problem_a_title'' then Inr (Some (Text ''Problem A''))
      else Inr None)"

definition scenario_pairs :: "stat_status_pair list" where
  "scenario_pairs =
     [\<lparr>question__title_slug = ''a'', status = Some JNull\<rparr>,
      \<lparr>question__title_slug = ''b'', status = Some (JStr ''ac'')\<rparr>]"

definition first_draw :: "nat \<Rightarrow> nat" where
  "first_draw k = 0"

definition flaky_cache :: cache_reader where
  "flaky_cache k =
     (if k = ''a_tags'' then Inl CacheError
      else if k = ''b_tags'' then Inr (Some (TagList [''dp'', ''greedy'']))
      else Inr None)"

definition resubmitted_pairs :: "stat_status_pair list" where
  "resubmitted_pairs =
     [\<lparr>question__title_slug = ''a'', status = Some (JStr ''ac'')\<rparr>,
      \<lparr>question__title_slug = ''b'', status = Some (JStr ''ac'')\<rparr>,
      \<lparr>question__title_slug = ''a'', status = Some JNull\<rparr>]"

text \<open>
  Four problems and three tags: \<^verbatim>\<open>t1\<close> on the unsolved \<^verbatim>\<open>a\<close> and \<^verbatim>\<open>b\<close>, \<^verbatim>\<open>t2\<close> on the unsolved
  \<^verbatim>\<open>c\<close>, \<^verbatim>\<open>t3\<close> on the unsolved \<^verbatim>\<open>a\<close> and the solved \<^verbatim>\<open>d\<close>; \<open>after_t1\<close> is the state of the
  selection loop once \<^verbatim>\<open>t1\<close> has been processed with the draws \<open>second_draw\<close>.
\<close>

definition second_draw :: "nat \<Rightarrow> nat" where
  "second_draw k = 1"

definition stuck_cache :: cache_reader where
  "stuck_cache k =
     (if k = ''a_tags'' then Inr (Some (TagList [''t1'', ''t3'']))
      else if k = ''b_tags'' then Inr (Some (TagList [''t1'']))
      else if k = ''c_tags'' then Inr (Some (TagList [''t2'']))
      else if k = ''d_tags'' then Inr (Some (TagList [''t3'']))
      else Inr None)"

definition stuck_pairs :: "stat_status_pair list" where
  "stuck_pairs =
     [\<lparr>question__title_slug = ''a'', status = Some JNull\<rparr>,
      \<lparr>question__title_slug = ''b'', status = Some JNull\<rparr>,
      \<lparr>question__title_slug = ''c'', status = Some JNull\<rparr>,
      \<lparr>question__title_slug = ''d'', status = Some (JStr ''ac'')\<rparr>]"

definition after_t1 :: selection where
  "after_t1 = \<lparr>to_solve_tasks = [''a'', ''b''], to_solve = ''b'',
               tag_progress = [(''t1'', 0)], draws_used = 2\<rparr>"

section \<open>The worker: completeness check, time to live, idempotence\<close>

subsection \<open>What the completeness check reads\<close>

lemma check_cache_problem_iff:
  "check_cache_problem w slug =
     (memcache_get w (slug @ ''_tags'') \<noteq> None \<and>
      memcache_get w (''problem_'' @ slug @ ''_tags'') \<noteq> None \<and>
      memcache_get w (''problem_'' @ slug @ ''_title'') \<noteq> None)"
  by (simp add: check_cache_problem_def is_not_None_def)

text \<open>
  Claim C2: the completeness check is true exactly when the four kinds of keys are there,
  and false as soon as the name of one of the problem's tags is missing. The code does not
  do this: \<^verbatim>\<open>all(...) is not None\<close> holds whatever \<^verbatim>\<open>all\<close> returns, so the tag names are
  never taken into account. On the cache \<open>nameless_tag_world\<close> the name of tag \<^verbatim>\<open>t\<close> is absent
  and the check of problem \<^verbatim>\<open>p\<close> answers true.
\<close>

theorem check_cache_problem_misses_tag_name:
  "check_cache_problem nameless_tag_world ''p'' = True
     \<and> memcache_get nameless_tag_world ''problem_p_tags'' = Some (TagList [''t''])
     \<and> check_cache_tag nameless_tag_world ''t'' = False"
  by (simp add: check_cache_problem_def check_cache_tag_def is_not_None_def memcache_get_def
      nameless_tag_world_def)

subsection \<open>Writes of one population\<close>



lemma detail_queries_memcache_set: "detail_queries (memcache_set k v t w) = detail_queries w"
  by (simp add: memcache_set_def)

lemma memcache_get_set:
  "memcache_get (memcache_set k v t w) k' =
     (if k' = k then (if 86400 * 30 < t then None else Some v) else memcache_get w k')"
  by (simp add: memcache_get_def memcache_set_def)


lemma write_tag_names_queries:
  "detail_queries (write_tag_names tags t w) = detail_queries w"
  by (induction tags arbitrary: w) (simp_all add: memcache_set_def)



text \<open>The run that populates: header present, slug given, check failed, provider answered.\<close>

lemma invalidate_cache_fill:
  assumes "queue_name req \<noteq> None" "queue_name req \<noteq> Some []"
    "form_slug req = Some slug" "\<not> check_cache_problem w slug" "provider slug = Inr detail"
  shows "invalidate_cache provider r req w =
     (Inr (''OK'', 200),
      memcache_set (''problem_'' @ slug @ ''_title'') (Text (title detail))
          (86400 * 30 + randint (- 86400) 86400 r)
       (memcache_set (''problem_'' @ slug @ ''_tags'') (TagList (map tag_slug (topic_tags detail)))
          (86400 * 30 + randint (- 86400) 86400 r)
         (memcache_set (slug @ ''_tags'') (TagList (map tag_slug (topic_tags detail)))
            (86400 * 30 + randint (- 86400) 86400 r)
           (write_tag_names (topic_tags detail) (86400 * 30 + randint (- 86400) 86400 r)
              (w\<lparr>detail_queries := detail_queries w @ [slug]\<rparr>)))))"
  using assms by (simp add: invalidate_cache_def get_problem_detail_def Let_def)






subsection \<open>A second run\<close>

lemma check_after_fill:
  "t \<le> 86400 * 30 \<Longrightarrow>
   check_cache_problem
     (memcache_set (''problem_'' @ slug @ ''_title'') ttl t
       (memcache_set (''problem_'' @ slug @ ''_tags'') tags t
         (memcache_set (slug @ ''_tags'') tags t w))) slug"
  by (simp add: check_cache_problem_iff memcache_get_set)

text \<open>
  When the jitter of the first run is not positive, its time to live is within the month
  and a second run is idle: it gives the same answer and the same world, whatever its draw
  and whatever the provider would say.
\<close>

lemma invalidate_cache_twice_within_limit:
  assumes "invalidate_cache provider r req w = (Inr resp, w1)"
    and "randint (- 86400) 86400 r \<le> 0"
  shows "invalidate_cache provider2 r2 req w1 = (Inr resp, w1)
       \<and> (resp = (''OK'', 200) \<longrightarrow>
            (\<exists>slug. form_slug req = Some slug \<and> check_cache_problem w1 slug))"
proof (cases "queue_name req = None \<or> queue_name req = Some []")
  case True
  with assms(1) have "resp = (''FAIL'', 403)" "w1 = w"
    by (auto simp: invalidate_cache_def)
  with True show ?thesis by (auto simp: invalidate_cache_def)
next
  case hdr: False
  from assms(1) hdr obtain slug where slug: "form_slug req = Some slug"
    by (cases "form_slug req") (auto simp: invalidate_cache_def Let_def)
  show ?thesis
  proof (cases "check_cache_problem w slug")
    case True
    with assms(1) hdr slug have "resp = (''OK'', 200)" "w1 = w"
      by (auto simp: invalidate_cache_def Let_def)
    with True hdr slug show ?thesis by (auto simp: invalidate_cache_def Let_def)
  next
    case False
    from assms(1) hdr slug False obtain detail where detail: "provider slug = Inr detail"
      by (cases "provider slug")
        (auto simp: invalidate_cache_def get_problem_detail_def Let_def)
    from hdr have h: "queue_name req \<noteq> None" "queue_name req \<noteq> Some []" by simp_all
    from assms(1) have "resp = (''OK'', 200)"
      and w1: "w1 = snd (invalidate_cache provider r req w)"
      using h slug False detail by (simp_all add: invalidate_cache_fill)
    have limit: "86400 * 30 + randint (- 86400) 86400 r \<le> 86400 * 30"
      using assms(2) by simp
    have "check_cache_problem (snd (invalidate_cache provider r req w)) slug"
      unfolding invalidate_cache_fill
        [where provider = provider and slug = slug and detail = detail,
          OF h slug False detail] snd_conv
      using limit by (rule check_after_fill)
    then have "check_cache_problem w1 slug" by (simp only: w1)
    with hdr slug \<open>resp = (''OK'', 200)\<close> show ?thesis
      by (auto simp: invalidate_cache_def Let_def)
  qed
qed

text \<open>
  Claim C6: the worker run twice in sequence on the same slug leaves the cache after the
  second run as it was after the first, and the second run asks the catalog provider
  nothing, since the completeness check passes after the first successful population.
  The code does not do this when the jitter is positive. With the raw draw \<^verbatim>\<open>86401\<close> the
  jitter is \<^verbatim>\<open>1\<close> and the worker sets its five entries with \<^verbatim>\<open>time=2592001\<close>, one second more
  than memcache takes as a duration: the first run answers \<^verbatim>\<open>OK\<close> and nothing is cached, the
  completeness check of the slug is false, and the second run asks the provider again and
  writes again (here, with the draw \<^verbatim>\<open>7\<close>, entries that stay).
\<close>

theorem invalidate_cache_twice_requeries:
  "86400 * 30 + randint (- 86400) 86400 86401 = 2592001
   \<and> fst (invalidate_cache catalog 86401 two_sum_task empty_world) = Inr (''OK'', 200)
   \<and> set_calls (snd (invalidate_cache catalog 86401 two_sum_task empty_world)) =
       [(''tag_array_name'', Text ''Array'', 2592001),
        (''tag_hash-table_name'', Text ''Hash Table'', 2592001),
        (''two-sum_tags'', TagList [''array'', ''hash-table''], 2592001),
        (''problem_two-sum_tags'', TagList [''array'', ''hash-table''], 2592001),
        (''problem_two-sum_title'', Text ''Two Sum'', 2592001)]
   \<and> store (snd (invalidate_cache catalog 86401 two_sum_task empty_world)) = Map.empty
   \<and> check_cache_problem (snd (invalidate_cache catalog 86401 two_sum_task empty_world))
         ''two-sum'' = False
   \<and> detail_queries
        (snd (invalidate_cache catalog 7 two_sum_task
               (snd (invalidate_cache catalog 86401 two_sum_task empty_world))))
       = [''two-sum'', ''two-sum'']
   \<and> store
        (snd (invalidate_cache catalog 7 two_sum_task
               (snd (invalidate_cache catalog 86401 two_sum_task empty_world))))
        ''two-sum_tags''
       = Some (TagList [''array'', ''hash-table''], 2505607)
   \<and> fst (invalidate_cache catalog_down 7 two_sum_task
             (snd (invalidate_cache catalog 86401 two_sum_task empty_world)))
       = Inl UpstreamError"
proof -
  have t: "86400 * 30 + randint (- 86400) 86400 86401 = 2592001"
    by (simp add: randint_def)
  have run1: "invalidate_cache catalog 86401 two_sum_task empty_world =
      (Inr (''OK'', 200),
       \<lparr>store = Map.empty,
        set_calls =
          [(''tag_array_name'', Text ''Array'', 2592001),
           (''tag_hash-table_name'', Text ''Hash Table'', 2592001),
           (''two-sum_tags'', TagList [''array'', ''hash-table''], 2592001),
           (''problem_two-sum_tags'', TagList [''array'', ''hash-table''], 2592001),
           (''problem_two-sum_title'', Text ''Two Sum'', 2592001)],
        detail_queries = [''two-sum'']\<rparr>)"
    by (simp add: invalidate_cache_def two_sum_task_def check_cache_problem_iff memcache_get_def
        get_problem_detail_def catalog_def Let_def memcache_set_def empty_world_def randint_def)
  let ?w1 = "\<lparr>store = Map.empty,
        set_calls =
          [(''tag_array_name'', Text ''Array'', 2592001),
           (''tag_hash-table_name'', Text ''Hash Table'', 2592001),
           (''two-sum_tags'', TagList [''array'', ''hash-table''], 2592001),
           (''problem_two-sum_tags'', TagList [''array'', ''hash-table''], 2592001),
           (''problem_two-sum_title'', Text ''Two Sum'', 2592001)],
        detail_queries = [''two-sum'']\<rparr>"
  have check1: "check_cache_problem ?w1 ''two-sum'' = False"
    by (simp add: check_cache_problem_iff memcache_get_def)
  have q2: "detail_queries (snd (invalidate_cache catalog 7 two_sum_task ?w1))
      = [''two-sum'', ''two-sum'']"
    by (simp add: invalidate_cache_def two_sum_task_def check1 get_problem_detail_def
        catalog_def Let_def detail_queries_memcache_set write_tag_names_queries)
  have s2: "store (snd (invalidate_cache catalog 7 two_sum_task ?w1)) ''two-sum_tags''
      = Some (TagList [''array'', ''hash-table''], 2505607)"
    by (simp add: invalidate_cache_def two_sum_task_def check1 get_problem_detail_def
        catalog_def Let_def memcache_set_def randint_def)
  have down: "fst (invalidate_cache catalog_down 7 two_sum_task ?w1) = Inl UpstreamError"
    by (simp add: invalidate_cache_def two_sum_task_def check1 get_problem_detail_def
        catalog_down_def Let_def)
  show ?thesis
    unfolding run1 fst_conv snd_conv
    using t check1 q2 s2 down by simp
qed

section \<open>The selection engine\<close>

subsection \<open>The status dict\<close>

lemma solved_status_items_total:
  "\<forall>p\<in>set pairs. status p \<noteq> None \<Longrightarrow> \<exists>d'. solved_status_items pairs d = Inr d'"
  by (induction pairs arbitrary: d) (auto split: option.splits)

lemma solved_status_items_keys:
  "solved_status_items pairs d = Inr d' \<Longrightarrow>
     fst ` set d' = fst ` set d \<union> question__title_slug ` set pairs"
  by (induction pairs arbitrary: d) (auto simp: dom_update split: option.splits)

lemma solved_status_items_distinct:
  "solved_status_items pairs d = Inr d' \<Longrightarrow> distinct (map fst d) \<Longrightarrow> distinct (map fst d')"
  by (induction pairs arbitrary: d) (auto simp: distinct_update split: option.splits)

lemma solved_status_items_lookup:
  "solved_status_items pairs d = Inr d' \<Longrightarrow>
     map_of d' s =
       (case last_occurrence pairs s of
          None \<Rightarrow> map_of d s
        | Some p \<Rightarrow> Some (status p = Some (JStr ''ac'')))"
proof (induction pairs arbitrary: d)
  case Nil
  then show ?case by simp
next
  case (Cons p ps)
  then obtain st where st: "status p = Some st"
    and rest: "solved_status_items ps (AList.update (question__title_slug p) (st = JStr ''ac'') d) = Inr d'"
    by (auto split: option.splits)
  from Cons.IH [OF rest] show ?case
    by (auto simp: update_conv' st split: option.splits)
qed

lemma slug_to_solved_status_props:
  assumes "slug_to_solved_status pairs = Inr sm"
  shows "distinct (map fst sm)"
    and "fst ` set sm = question__title_slug ` set pairs"
    and "map_of sm s = map_option (\<lambda>p. status p = Some (JStr ''ac'')) (last_occurrence pairs s)"
  using assms solved_status_items_distinct [of pairs "[]" sm]
    solved_status_items_keys [of pairs "[]" sm] solved_status_items_lookup [of pairs "[]" sm s]
  by (auto simp: slug_to_solved_status_def split: option.splits)

lemma slug_to_solved_status_total:
  "\<forall>p\<in>set pairs. status p \<noteq> None \<Longrightarrow> \<exists>sm. slug_to_solved_status pairs = Inr sm"
  by (simp add: slug_to_solved_status_def solved_status_items_total)

lemma get_tags_value: "get_tags get slug = Inr (cached_tags get slug)"
  by (simp add: get_tags_def cached_tags_def split: sum.splits)

lemma gather_get_tags: "gather (map (get_tags get) xs) = Inr (map (cached_tags get) xs)"
  by (induction xs) (simp_all add: get_tags_value)

lemma map_of_dict_of: "map_of (dict_of kvs d) = map_of d ++ map_of (rev kvs)"
proof (induction kvs arbitrary: d)
  case Nil
  then show ?case by simp
next
  case (Cons kv kvs)
  have "map_of (dict_of (kv # kvs) d) = map_of (AList.update (fst kv) (snd kv) d) ++ map_of (rev kvs)"
    using Cons.IH by simp
  also have "\<dots> = map_of d ++ map_of (rev (kv # kvs))"
    by (cases kv) (simp add: update_conv' fun_eq_iff map_add_def split: option.splits)
  finally show ?case .
qed

lemma map_of_rev_zip_map:
  "map_of (rev (zip xs (map f xs))) = (\<lambda>x. if x \<in> set xs then Some (f x) else None)"
proof -
  have "rev (zip xs (map f xs)) = zip (rev xs) (map f (rev xs))"
    by (simp add: zip_rev [symmetric] rev_map)
  then show ?thesis by (simp add: map_of_zip_map)
qed

lemma problem_to_tags_of_value:
  "\<exists>ptt. problem_to_tags_of get sm = Inr ptt \<and>
     map_of ptt = (\<lambda>s. if s \<in> fst ` set sm then Some (cached_tags get s) else None)"
proof -
  have g: "gather (map (get_tags get) (map fst sm)) = Inr (map (cached_tags get) (map fst sm))"
    by (rule gather_get_tags)
  have "map_of (dict_of (zip (map fst sm) (map (cached_tags get) (map fst sm))) [])
      = (\<lambda>s. if s \<in> fst ` set sm then Some (cached_tags get s) else None)"
    unfolding map_of_dict_of map_of_rev_zip_map by simp
  then show ?thesis
    unfolding problem_to_tags_of_def Let_def g by simp
qed

subsection \<open>The aggregation map\<close>

lemma map_of_entry_after_default:
  "map_of (AList.map_entry tag f (setdefault tag e m)) =
     (map_of m)(tag \<mapsto> f (case map_of m tag of None \<Rightarrow> e | Some ti \<Rightarrow> ti))"
  by (auto simp: map_of_map_entry setdefault_def map_of_map_default fun_eq_iff split: option.splits)

lemma keys_entry_after_default:
  "fst ` set (AList.map_entry tag f (setdefault tag e m)) = insert tag (fst ` set m)"
  by (simp add: dom_map_entry setdefault_def dom_map_default)

lemma distinct_entry_after_default:
  "distinct (map fst m) \<Longrightarrow> distinct (map fst (AList.map_entry tag f (setdefault tag e m)))"
  by (simp add: distinct_map_entry setdefault_def distinct_map_default)

lemma add_to_tags_keys:
  "fst ` set (add_to_tags slug b tags m) = fst ` set m \<union> set tags"
  by (induction tags arbitrary: m) (auto simp: keys_entry_after_default Let_def)

lemma add_to_tags_distinct:
  "distinct (map fst m) \<Longrightarrow> distinct (map fst (add_to_tags slug b tags m))"
  by (induction tags arbitrary: m) (auto simp: distinct_entry_after_default Let_def)

lemma add_to_tags_solved:
  "solved_of (add_to_tags slug b tags m) t =
     solved_of m t \<union> (if b \<and> t \<in> set tags then {slug} else {})"
proof (induction tags arbitrary: m)
  case Nil
  then show ?case by simp
next
  case (Cons tag tags)
  show ?case
    by (simp add: Cons.IH Let_def)
      (auto simp: solved_of_def map_of_entry_after_default split: option.splits)
qed

lemma add_to_tags_left:
  "left_of (add_to_tags slug b tags m) t =
     left_of m t \<union> (if \<not> b \<and> t \<in> set tags then {slug} else {})"
proof (induction tags arbitrary: m)
  case Nil
  then show ?case by simp
next
  case (Cons tag tags)
  show ?case
    by (simp add: Cons.IH Let_def)
      (auto simp: left_of_def map_of_entry_after_default split: option.splits)
qed

lemma add_to_tags_sets_distinct:
  "sets_distinct m \<Longrightarrow> sets_distinct (add_to_tags slug b tags m)"
proof (induction tags arbitrary: m)
  case Nil
  then show ?case by simp
next
  case (Cons tag tags)
  have step: "sets_distinct (AList.map_entry tag f (setdefault tag \<lparr>solved = [], left = []\<rparr> m))"
    if "\<And>ti. distinct (solved ti) \<and> distinct (left ti) \<Longrightarrow> distinct (solved (f ti)) \<and> distinct (left (f ti))" for f
    using Cons.prems that
    by (auto simp: sets_distinct_def map_of_entry_after_default split: option.splits if_splits)
  have s: "sets_distinct (AList.map_entry tag (\<lambda>ti. ti\<lparr>solved := List.insert slug (solved ti)\<rparr>)
             (setdefault tag \<lparr>solved = [], left = []\<rparr> m))"
    by (rule step) simp
  have l: "sets_distinct (AList.map_entry tag (\<lambda>ti. ti\<lparr>left := List.insert slug (left ti)\<rparr>)
             (setdefault tag \<lparr>solved = [], left = []\<rparr> m))"
    by (rule step) simp
  show ?case
    using Cons.IH [OF s] Cons.IH [OF l] by (cases b) (simp_all add: Let_def)
qed

lemma aggregate_total:
  "\<forall>item\<in>set items. map_of ptt (fst item) \<noteq> None \<Longrightarrow> \<exists>m'. aggregate items ptt m = Inr m'"
  by (induction items arbitrary: m) (auto split: option.splits)

lemma aggregate_keys:
  "aggregate items ptt m = Inr m' \<Longrightarrow>
     fst ` set m' = fst ` set m \<union>
       {t. \<exists>item\<in>set items. \<exists>v. map_of ptt (fst item) = Some v \<and> t \<in> set (elements v)}"
proof (induction items arbitrary: m)
  case Nil
  then show ?case by simp
next
  case (Cons item items)
  then obtain v where v: "map_of ptt (fst item) = Some v"
    and rest: "aggregate items ptt (add_to_tags (fst item) (snd item) (elements v) m) = Inr m'"
    by (auto split: option.splits)
  from Cons.IH [OF rest] v show ?case
    by (auto simp: add_to_tags_keys)
qed

lemma aggregate_distinct:
  "aggregate items ptt m = Inr m' \<Longrightarrow> distinct (map fst m) \<Longrightarrow> distinct (map fst m')"
  by (induction items arbitrary: m) (auto simp: add_to_tags_distinct split: option.splits)

lemma aggregate_sets_distinct:
  "aggregate items ptt m = Inr m' \<Longrightarrow> sets_distinct m \<Longrightarrow> sets_distinct m'"
  by (induction items arbitrary: m) (auto simp: add_to_tags_sets_distinct split: option.splits)

lemma aggregate_solved:
  "aggregate items ptt m = Inr m' \<Longrightarrow>
     solved_of m' t = solved_of m t \<union>
       {s. \<exists>v. (s, True) \<in> set items \<and> map_of ptt s = Some v \<and> t \<in> set (elements v)}"
proof (induction items arbitrary: m)
  case Nil
  then show ?case by simp
next
  case (Cons item items)
  then obtain v where v: "map_of ptt (fst item) = Some v"
    and rest: "aggregate items ptt (add_to_tags (fst item) (snd item) (elements v) m) = Inr m'"
    by (auto split: option.splits)
  from Cons.IH [OF rest] v show ?case
    by (cases item) (auto simp: add_to_tags_solved)
qed

lemma aggregate_left:
  "aggregate items ptt m = Inr m' \<Longrightarrow>
     left_of m' t = left_of m t \<union>
       {s. \<exists>v. (s, False) \<in> set items \<and> map_of ptt s = Some v \<and> t \<in> set (elements v)}"
proof (induction items arbitrary: m)
  case Nil
  then show ?case by simp
next
  case (Cons item items)
  then obtain v where v: "map_of ptt (fst item) = Some v"
    and rest: "aggregate items ptt (add_to_tags (fst item) (snd item) (elements v) m) = Inr m'"
    by (auto split: option.splits)
  from Cons.IH [OF rest] v show ?case
    by (cases item) (auto simp: add_to_tags_left)
qed

text \<open>The aggregation map of a status dict.\<close>

lemma tag_info_map_of_total: "\<exists>m. tag_info_map_of get sm = Inr m"
proof -
  obtain ptt where ptt: "problem_to_tags_of get sm = Inr ptt"
    and look: "map_of ptt = (\<lambda>s. if s \<in> fst ` set sm then Some (cached_tags get s) else None)"
    using problem_to_tags_of_value by blast
  have "\<forall>item\<in>set sm. map_of ptt (fst item) \<noteq> None" by (simp add: look)
  from aggregate_total [OF this] show ?thesis by (simp add: tag_info_map_of_def ptt)
qed

lemma tag_info_map_of_props:
  assumes "tag_info_map_of get sm = Inr m"
  shows "distinct (map fst m)" and "sets_distinct m"
    and "fst ` set m = {t. \<exists>item\<in>set sm. t \<in> set (elements (cached_tags get (fst item)))}"
    and "solved_of m t = {s. (s, True) \<in> set sm \<and> t \<in> set (elements (cached_tags get s))}"
    and "left_of m t = {s. (s, False) \<in> set sm \<and> t \<in> set (elements (cached_tags get s))}"
proof -
  obtain ptt where ptt: "problem_to_tags_of get sm = Inr ptt"
    and look: "map_of ptt = (\<lambda>s. if s \<in> fst ` set sm then Some (cached_tags get s) else None)"
    using problem_to_tags_of_value by blast
  from assms have agg: "aggregate sm ptt [] = Inr m" by (simp add: tag_info_map_of_def ptt)
  show "distinct (map fst m)" using aggregate_distinct [OF agg] by simp
  show "sets_distinct m" using aggregate_sets_distinct [OF agg] by (simp add: sets_distinct_def)
  show "fst ` set m = {t. \<exists>item\<in>set sm. t \<in> set (elements (cached_tags get (fst item)))}"
    using aggregate_keys [OF agg] by (auto simp: look)
  show "solved_of m t = {s. (s, True) \<in> set sm \<and> t \<in> set (elements (cached_tags get s))}"
    using aggregate_solved [OF agg, of t] by (force simp: look solved_of_def)
  show "left_of m t = {s. (s, False) \<in> set sm \<and> t \<in> set (elements (cached_tags get s))}"
    using aggregate_left [OF agg, of t] by (force simp: look left_of_def)
qed

subsection \<open>Ratio order and the loop\<close>

lemma ratio_key_value: "nonempty_tag ti \<Longrightarrow> ratio_key ti = Inr (ratio_of ti)"
  by (simp add: ratio_key_def ratio_of_def nonempty_tag_def)

lemma ratio_of_bounds: "0 \<le> ratio_of ti \<and> ratio_of ti \<le> 1"
proof -
  have "(of_nat (length (solved ti)) :: rat) \<le> of_nat (length (solved ti) + length (left ti))"
    by simp
  then show ?thesis
    unfolding ratio_of_def by (simp add: divide_le_eq_1 del: of_nat_add)
qed

lemma keyed_value:
  "\<forall>item\<in>set m. nonempty_tag (snd item) \<Longrightarrow>
     keyed m = Inr (map (\<lambda>item. (ratio_of (snd item), item)) m)"
  by (induction m) (simp_all add: ratio_key_value)

lemma insort_key_decorated:
  "insort_key fst (f x, x) (map (\<lambda>y. (f y, y)) ys) = map (\<lambda>y. (f y, y)) (insort_key f x ys)"
  by (induction ys) simp_all

lemma sort_key_decorated:
  "sort_key fst (map (\<lambda>y. (f y, y)) xs) = map (\<lambda>y. (f y, y)) (sort_key f xs)"
  by (induction xs) (simp_all add: insort_key_decorated)

lemma sorted_by_ratio_value:
  assumes "\<forall>item\<in>set m. nonempty_tag (snd item)"
  shows "sorted_by_ratio m = Inr (sort_key (\<lambda>item. ratio_of (snd item)) m)"
  by (simp add: sorted_by_ratio_def keyed_value [OF assms] sort_key_decorated comp_def)

lemma distinct_map_insort_key:
  "distinct (map g (insort_key f x xs)) = distinct (map g (x # xs))"
  by (induction xs) (auto simp: set_insort_key)

lemma distinct_map_sort_key: "distinct (map g (sort_key f xs)) = distinct (map g xs)"
  by (induction xs) (simp_all add: distinct_map_insort_key)

lemma narrow_step_value:
  assumes "nonempty_tag (snd item)"
  shows "narrow_step draws item st =
     Inr \<lparr>to_solve_tasks = filter (\<lambda>s. s \<in> set (left (snd item))) (to_solve_tasks st),
          to_solve = (if filter (\<lambda>s. s \<in> set (left (snd item))) (to_solve_tasks st) \<noteq> []
                      then filter (\<lambda>s. s \<in> set (left (snd item))) (to_solve_tasks st)
                             ! (draws (draws_used st)
                                  mod length (filter (\<lambda>s. s \<in> set (left (snd item))) (to_solve_tasks st)))
                      else to_solve st),
          tag_progress = AList.update (fst item) (ratio_of (snd item) * 100) (tag_progress st),
          draws_used = (if filter (\<lambda>s. s \<in> set (left (snd item))) (to_solve_tasks st) \<noteq> []
                        then Suc (draws_used st) else draws_used st)\<rparr>"
  by (simp add: narrow_step_def Let_def choice_def ratio_key_value [OF assms])

lemma update_fresh: "k \<notin> fst ` set d \<Longrightarrow> AList.update k v d = d @ [(k, v)]"
  by (induction d) auto

lemma narrow_value:
  assumes "\<forall>item\<in>set items. nonempty_tag (snd item)"
    and "distinct (map fst items)"
    and "fst ` set items \<inter> fst ` set (tag_progress st) = {}"
  shows "\<exists>st'. narrow draws items st = Inr st'
     \<and> tag_progress st' = tag_progress st @ map (\<lambda>item. (fst item, ratio_of (snd item) * 100)) items
     \<and> set (to_solve_tasks st') \<subseteq> set (to_solve_tasks st)
     \<and> (to_solve st' = to_solve st \<or> to_solve st' \<in> set (to_solve_tasks st))"
  using assms
proof (induction items arbitrary: st)
  case Nil
  then show ?case by simp
next
  case (Cons item items)
  let ?tasks = "filter (\<lambda>s. s \<in> set (left (snd item))) (to_solve_tasks st)"
  let ?st1 = "\<lparr>to_solve_tasks = ?tasks,
          to_solve = (if ?tasks \<noteq> [] then ?tasks ! (draws (draws_used st) mod length ?tasks)
                      else to_solve st),
          tag_progress = AList.update (fst item) (ratio_of (snd item) * 100) (tag_progress st),
          draws_used = (if ?tasks \<noteq> [] then Suc (draws_used st) else draws_used st)\<rparr>"
  have step: "narrow_step draws item st = Inr ?st1"
    using Cons.prems(1) by (simp add: narrow_step_value)
  have fresh: "fst item \<notin> fst ` set (tag_progress st)"
    using Cons.prems(3) by auto
  have upd: "AList.update (fst item) (ratio_of (snd item) * 100) (tag_progress st)
      = tag_progress st @ [(fst item, ratio_of (snd item) * 100)]"
    using fresh by (rule update_fresh)
  have prog1: "tag_progress ?st1 = tag_progress st @ [(fst item, ratio_of (snd item) * 100)]"
    by (simp add: upd)
  have pick1: "to_solve ?st1 = to_solve st \<or> to_solve ?st1 \<in> set (to_solve_tasks st)"
  proof (cases "?tasks = []")
    case True
    then show ?thesis by simp
  next
    case False
    then have "?tasks ! (draws (draws_used st) mod length ?tasks) \<in> set ?tasks"
      by (intro nth_mem) simp
    then show ?thesis using False by auto
  qed
  have pre: "\<forall>item\<in>set items. nonempty_tag (snd item)" "distinct (map fst items)"
    "fst ` set items \<inter> fst ` set (tag_progress ?st1) = {}"
    using Cons.prems by (auto simp: upd)
  from Cons.IH [OF pre] obtain st' where st': "narrow draws items ?st1 = Inr st'"
    "tag_progress st' = tag_progress ?st1 @ map (\<lambda>item. (fst item, ratio_of (snd item) * 100)) items"
    "set (to_solve_tasks st') \<subseteq> set (to_solve_tasks ?st1)"
    "to_solve st' = to_solve ?st1 \<or> to_solve st' \<in> set (to_solve_tasks ?st1)"
    by blast
  have "narrow draws (item # items) st = Inr st'" using step st'(1) by simp
  moreover have "tag_progress st' =
      tag_progress st @ map (\<lambda>item. (fst item, ratio_of (snd item) * 100)) (item # items)"
    using st'(2) prog1 by simp
  moreover have "set (to_solve_tasks st') \<subseteq> set (to_solve_tasks st)"
    using st'(3) by auto
  moreover have "to_solve st' = to_solve st \<or> to_solve st' \<in> set (to_solve_tasks st)"
    using st'(4) pick1 by auto
  ultimately show ?case by blast
qed

lemma tag_names_error: "tag_names get slugs d = Inl e \<Longrightarrow> \<exists>k. get k = Inl e"
  by (induction slugs arbitrary: d) (auto split: sum.splits)

subsection \<open>How a run ends\<close>

lemma tag_info_entry:
  assumes m: "tag_info_map_of get sm = Inr m" and d: "distinct (map fst sm)"
    and mem: "(t, ti) \<in> set m"
  shows "set (solved ti) = {s. (s, True) \<in> set sm \<and> t \<in> set (elements (cached_tags get s))}"
    and "set (left ti) = {s. (s, False) \<in> set sm \<and> t \<in> set (elements (cached_tags get s))}"
    and "distinct (solved ti)" and "distinct (left ti)"
    and "set (solved ti) \<inter> set (left ti) = {}"
    and "nonempty_tag ti"
proof -
  note props = tag_info_map_of_props [OF m]
  have look: "map_of m t = Some ti" using props(1) mem by simp
  show s: "set (solved ti) = {s. (s, True) \<in> set sm \<and> t \<in> set (elements (cached_tags get s))}"
    using props(4) [of t] by (simp add: solved_of_def look)
  show l: "set (left ti) = {s. (s, False) \<in> set sm \<and> t \<in> set (elements (cached_tags get s))}"
    using props(5) [of t] by (simp add: left_of_def look)
  show "distinct (solved ti)" "distinct (left ti)"
    using props(2) look by (auto simp: sets_distinct_def)
  show "set (solved ti) \<inter> set (left ti) = {}"
  proof (rule ccontr)
    assume "set (solved ti) \<inter> set (left ti) \<noteq> {}"
    then obtain s where "(s, True) \<in> set sm" "(s, False) \<in> set sm" using s l by auto
    with eq_key_imp_eq_value [OF d, of s True False] show False by simp
  qed
  have "t \<in> fst ` set m" using mem by force
  then obtain item where item: "item \<in> set sm" "t \<in> set (elements (cached_tags get (fst item)))"
    using props(3) by auto
  obtain x b where xb: "item = (x, b)" by (cases item)
  have "(x, b) \<in> set sm" "t \<in> set (elements (cached_tags get x))" using item xb by auto
  then have "x \<in> set (solved ti) \<union> set (left ti)"
    by (cases b) (auto simp: s l)
  then have "solved ti \<noteq> [] \<or> left ti \<noteq> []" by auto
  then show "nonempty_tag ti" by (auto simp: nonempty_tag_def)
qed

text \<open>How a run of interpret ends, for an input whose items all have a status.\<close>

lemma interpret_outcome:
  assumes sm: "slug_to_solved_status pairs = Inr sm"
  shows "(sm = [] \<and> interpret get draws pairs = Inl IndexError)
    \<or> (\<exists>e k. get k = Inl e \<and> interpret get draws pairs = Inl e)
    \<or> (\<exists>m st v names.
          sm \<noteq> [] \<and> tag_info_map_of get sm = Inr m
        \<and> narrow draws (sort_key (\<lambda>item. ratio_of (snd item)) m)
             \<lparr>to_solve_tasks = map fst sm, to_solve = map fst sm ! (draws 0 mod length sm),
              tag_progress = [], draws_used = 1\<rparr> = Inr st
        \<and> tag_progress st = map (\<lambda>item. (fst item, ratio_of (snd item) * 100))
                                (sort_key (\<lambda>item. ratio_of (snd item)) m)
        \<and> to_solve st \<in> fst ` set sm
        \<and> interpret get draws pairs =
            Inr (\<lparr>page_to_solve = to_solve st,
                  page_to_solve_name = py_or v (Text (to_solve st)),
                  page_tag_progress = tag_progress st,
                  page_tag_to_name = names\<rparr>, 200))"
proof (cases "sm = []")
  case True
  obtain m where m: "tag_info_map_of get sm = Inr m" using tag_info_map_of_total by blast
  have m0: "tag_info_map_of get [] = Inr m" using m True by simp
  have "interpret get draws pairs = Inl IndexError"
    by (simp add: interpret_def sm True m0 choice_def)
  with True show ?thesis by simp
next
  case False
  obtain m where m: "tag_info_map_of get sm = Inr m" using tag_info_map_of_total by blast
  have d: "distinct (map fst sm)" using slug_to_solved_status_props(1) [OF sm] .
  have ne: "\<forall>item\<in>set m. nonempty_tag (snd item)"
    using tag_info_entry(6) [OF m d] by auto
  let ?items = "sort_key (\<lambda>item. ratio_of (snd item)) m"
  let ?init = "\<lparr>to_solve_tasks = map fst sm, to_solve = map fst sm ! (draws 0 mod length sm),
              tag_progress = [], draws_used = 1\<rparr>"
  have sorted: "sorted_by_ratio m = Inr ?items" using ne by (rule sorted_by_ratio_value)
  have first: "choice (draws 0) (map fst sm) = Inr (map fst sm ! (draws 0 mod length sm))"
    using False by (simp add: choice_def)
  have "\<forall>item\<in>set ?items. nonempty_tag (snd item)" using ne by simp
  moreover have "distinct (map fst ?items)"
    using tag_info_map_of_props(1) [OF m] by (simp add: distinct_map_sort_key)
  moreover have "fst ` set ?items \<inter> fst ` set (tag_progress ?init) = {}" by simp
  ultimately obtain st where st: "narrow draws ?items ?init = Inr st"
    "tag_progress st = tag_progress ?init @ map (\<lambda>item. (fst item, ratio_of (snd item) * 100)) ?items"
    "set (to_solve_tasks st) \<subseteq> set (to_solve_tasks ?init)"
    "to_solve st = to_solve ?init \<or> to_solve st \<in> set (to_solve_tasks ?init)"
    using narrow_value [of ?items ?init draws] by blast
  have "draws 0 mod length sm < length (map fst sm)" using False by simp
  then have "map fst sm ! (draws 0 mod length sm) \<in> set (map fst sm)" by (rule nth_mem)
  moreover have "to_solve st = map fst sm ! (draws 0 mod length sm) \<or> to_solve st \<in> set (map fst sm)"
    using st(4) by simp
  ultimately have "to_solve st \<in> set (map fst sm)" by metis
  then have pick: "to_solve st \<in> fst ` set sm" by simp
  have prog: "tag_progress st = map (\<lambda>item. (fst item, ratio_of (snd item) * 100)) ?items"
    using st(2) by simp
  show ?thesis
  proof (cases "get (''problem_'' @ to_solve st @ ''_title'')")
    case (Inl e)
    then have "interpret get draws pairs = Inl e"
      by (simp only: interpret_def sm m first sorted st(1) Inl sum.case)
    with Inl show ?thesis by blast
  next
    case (Inr v)
    show ?thesis
    proof (cases "tag_names get (map fst (tag_progress st)) []")
      case (Inl e)
      then have "interpret get draws pairs = Inl e"
        by (simp only: interpret_def sm m first sorted st(1) Inr Inl sum.case)
      with tag_names_error [OF Inl] show ?thesis by blast
    next
      case names: (Inr names)
      have "interpret get draws pairs =
            Inr (\<lparr>page_to_solve = to_solve st,
                  page_to_solve_name = py_or v (Text (to_solve st)),
                  page_tag_progress = tag_progress st,
                  page_tag_to_name = names\<rparr>, 200)"
        by (simp only: interpret_def sm m first sorted st(1) Inr names sum.case)
      with False m st(1) prog pick show ?thesis by blast
    qed
  qed
qed

subsection \<open>Runs on the concrete inputs\<close>

lemma scenario_status:
  "slug_to_solved_status scenario_pairs = Inr [(''a'', False), (''b'', True)]"
  by (simp add: slug_to_solved_status_def scenario_pairs_def)

lemma resubmitted_status:
  "slug_to_solved_status resubmitted_pairs = Inr [(''a'', False), (''b'', True)]"
  by (simp add: slug_to_solved_status_def resubmitted_pairs_def)

lemma scenario_tag_info:
  "tag_info_map_of scenario_cache [(''a'', False), (''b'', True)] =
     Inr [(''dp'', \<lparr>solved = [''b''], left = [''a'']\<rparr>),
          (''greedy'', \<lparr>solved = [''b''], left = []\<rparr>)]"
  by (simp add: tag_info_map_of_def problem_to_tags_of_def get_tags_def scenario_cache_def
      setdefault_def Let_def)

lemma flaky_tag_info:
  "tag_info_map_of flaky_cache [(''a'', False), (''b'', True)] =
     Inr [(''dp'', \<lparr>solved = [''b''], left = []\<rparr>),
          (''greedy'', \<lparr>solved = [''b''], left = []\<rparr>)]"
  by (simp add: tag_info_map_of_def problem_to_tags_of_def get_tags_def flaky_cache_def
      setdefault_def Let_def)

lemma scenario_sorted:
  "sorted_by_ratio [(''dp'', \<lparr>solved = [''b''], left = [''a'']\<rparr>),
                    (''greedy'', \<lparr>solved = [''b''], left = []\<rparr>)] =
     Inr [(''dp'', \<lparr>solved = [''b''], left = [''a'']\<rparr>),
          (''greedy'', \<lparr>solved = [''b''], left = []\<rparr>)]"
  by (simp add: sorted_by_ratio_def ratio_key_def)

lemma scenario_narrow:
  "narrow first_draw [(''dp'', \<lparr>solved = [''b''], left = [''a'']\<rparr>),
                      (''greedy'', \<lparr>solved = [''b''], left = []\<rparr>)]
     \<lparr>to_solve_tasks = [''a'', ''b''], to_solve = ''a'', tag_progress = [], draws_used = 1\<rparr>
   = Inr \<lparr>to_solve_tasks = [], to_solve = ''a'',
          tag_progress = [(''dp'', 50), (''greedy'', 100)], draws_used = 2\<rparr>"
  by (simp add: narrow_step_def ratio_key_def choice_def first_draw_def Let_def)

lemma scenario_run:
  "interpret scenario_cache first_draw scenario_pairs =
     Inr (\<lparr>page_to_solve = ''a'',
           page_to_solve_name = Text ''Problem A'',
           page_tag_progress = [(''dp'', 50), (''greedy'', 100)],
           page_tag_to_name = [(''dp'', Text ''Dynamic Programming''), (''greedy'', Text ''greedy'')]\<rparr>,
          200)"
  by (simp add: interpret_def slug_to_solved_status_def scenario_pairs_def tag_info_map_of_def
      problem_to_tags_of_def get_tags_def scenario_cache_def setdefault_def Let_def choice_def
      first_draw_def sorted_by_ratio_def ratio_key_def narrow_step_def)

subsection \<open>The selection loop on an empty intersection\<close>

lemma stuck_tags:
  "tag_info_map_of stuck_cache [(''a'', False), (''b'', False), (''c'', False), (''d'', True)] =
     Inr [(''t1'', \<lparr>solved = [], left = [''b'', ''a'']\<rparr>),
          (''t3'', \<lparr>solved = [''d''], left = [''a'']\<rparr>),
          (''t2'', \<lparr>solved = [], left = [''c'']\<rparr>)]"
  by (simp add: tag_info_map_of_def problem_to_tags_of_def get_tags_def stuck_cache_def
      setdefault_def Let_def)

text \<open>
  Claim C1, as stated: when the intersection of the candidate pool with a tag's left set is
  empty, the pool and the pick are both left unchanged, the pool keeping its previous
  non-empty value. On the run below the pool is \<^verbatim>\<open>{a, b}\<close> after \<^verbatim>\<open>t1\<close>; its intersection with
  the left set \<^verbatim>\<open>{c}\<close> of \<^verbatim>\<open>t2\<close> is empty, and the step leaves the pool empty, not \<^verbatim>\<open>{a, b}\<close>:
  \<^verbatim>\<open>to_solve_tasks &= tag_info.left\<close> is not guarded. So \<^verbatim>\<open>t3\<close>, whose left set is \<^verbatim>\<open>{a}\<close>, no
  longer narrows, and the answer is \<^verbatim>\<open>b\<close>.
\<close>

theorem narrow_step_empties_pool:
  "narrow second_draw [(''t1'', \<lparr>solved = [], left = [''b'', ''a'']\<rparr>)]
       \<lparr>to_solve_tasks = [''a'', ''b'', ''c'', ''d''], to_solve = ''b'',
        tag_progress = [], draws_used = 1\<rparr> = Inr after_t1
   \<and> to_solve_tasks after_t1 = [''a'', ''b'']
   \<and> narrow_step second_draw (''t2'', \<lparr>solved = [], left = [''c'']\<rparr>) after_t1 =
       Inr \<lparr>to_solve_tasks = [], to_solve = ''b'',
            tag_progress = [(''t1'', 0), (''t2'', 0)], draws_used = 2\<rparr>
   \<and> interpret stuck_cache second_draw stuck_pairs =
       Inr (\<lparr>page_to_solve = ''b'', page_to_solve_name = Text ''b'',
             page_tag_progress = [(''t1'', 0), (''t2'', 0), (''t3'', 50)],
             page_tag_to_name = [(''t1'', Text ''t1''), (''t2'', Text ''t2''), (''t3'', Text ''t3'')]\<rparr>,
            200)"
proof -
  have 1: "narrow second_draw [(''t1'', \<lparr>solved = [], left = [''b'', ''a'']\<rparr>)]
       \<lparr>to_solve_tasks = [''a'', ''b'', ''c'', ''d''], to_solve = ''b'',
        tag_progress = [], draws_used = 1\<rparr> = Inr after_t1"
    by (simp add: narrow_step_def ratio_key_def choice_def second_draw_def Let_def after_t1_def)
  have 2: "to_solve_tasks after_t1 = [''a'', ''b'']" by (simp add: after_t1_def)
  have 3: "narrow_step second_draw (''t2'', \<lparr>solved = [], left = [''c'']\<rparr>) after_t1 =
       Inr \<lparr>to_solve_tasks = [], to_solve = ''b'',
            tag_progress = [(''t1'', 0), (''t2'', 0)], draws_used = 2\<rparr>"
    by (simp add: narrow_step_def ratio_key_def choice_def second_draw_def Let_def after_t1_def)
  have 4: "interpret stuck_cache second_draw stuck_pairs =
       Inr (\<lparr>page_to_solve = ''b'', page_to_solve_name = Text ''b'',
             page_tag_progress = [(''t1'', 0), (''t2'', 0), (''t3'', 50)],
             page_tag_to_name = [(''t1'', Text ''t1''), (''t2'', Text ''t2''), (''t3'', Text ''t3'')]\<rparr>,
            200)"
    by (simp add: interpret_def slug_to_solved_status_def stuck_pairs_def tag_info_map_of_def
      problem_to_tags_of_def get_tags_def stuck_cache_def setdefault_def Let_def choice_def
      second_draw_def sorted_by_ratio_def ratio_key_def narrow_step_def)
  from 1 2 3 4 show ?thesis by (intro conjI)
qed

lemma narrow_step_on_empty:
  "to_solve_tasks st = [] \<Longrightarrow> narrow_step draws item st = Inr st' \<Longrightarrow>
     to_solve_tasks st' = [] \<and> to_solve st' = to_solve st"
  by (auto simp: narrow_step_def Let_def split: sum.splits)

lemma narrow_on_empty:
  "to_solve_tasks st = [] \<Longrightarrow> narrow draws items st = Inr st' \<Longrightarrow>
     to_solve_tasks st' = [] \<and> to_solve st' = to_solve st"
proof (induction items arbitrary: st)
  case Nil
  then show ?case by simp
next
  case (Cons item items)
  from Cons.prems(2) obtain st1 where s1: "narrow_step draws item st = Inr st1"
    and rest: "narrow draws items st1 = Inr st'"
    by (auto split: sum.splits)
  from narrow_step_on_empty [OF Cons.prems(1) s1] Cons.IH [OF _ rest] show ?case by simp
qed

text \<open>
  Claim C1, amended: in the selection loop the candidate pool is replaced by its
  intersection with the tag's left set at every tag, also when the intersection is empty;
  when it is empty the pick is left unchanged, and from then on the pool stays empty and no
  later tag changes the pick; only a non-empty intersection triggers a new random pick,
  taken from the intersection.
\<close>

theorem narrow_step_policy:
  assumes "0 < length (solved ti) + length (left ti)"
  shows "\<exists>st'. narrow_step draws (name, ti) st = Inr st'
     \<and> to_solve_tasks st' = filter (\<lambda>s. s \<in> set (left ti)) (to_solve_tasks st)
     \<and> (to_solve_tasks st' = [] \<longrightarrow> to_solve st' = to_solve st)
     \<and> (to_solve_tasks st' \<noteq> [] \<longrightarrow> to_solve st' \<in> set (to_solve_tasks st'))
     \<and> (to_solve_tasks st' = [] \<longrightarrow>
          (\<forall>items st''. narrow draws items st' = Inr st'' \<longrightarrow>
             to_solve_tasks st'' = [] \<and> to_solve st'' = to_solve st))"
proof -
  let ?tasks = "filter (\<lambda>s. s \<in> set (left ti)) (to_solve_tasks st)"
  have ne: "nonempty_tag (snd (name, ti))" using assms by (simp add: nonempty_tag_def)
  from narrow_step_value [OF ne, of draws st]
  obtain st' where st': "narrow_step draws (name, ti) st = Inr st'"
    and tasks: "to_solve_tasks st' = ?tasks"
    and pick: "to_solve st' = (if ?tasks \<noteq> [] then ?tasks ! (draws (draws_used st) mod length ?tasks)
                               else to_solve st)"
    by simp
  have a: "to_solve_tasks st' = [] \<longrightarrow> to_solve st' = to_solve st"
    using tasks pick by simp
  have b: "to_solve_tasks st' \<noteq> [] \<longrightarrow> to_solve st' \<in> set (to_solve_tasks st')"
  proof
    assume "to_solve_tasks st' \<noteq> []"
    then have n: "?tasks \<noteq> []" using tasks by simp
    then have "draws (draws_used st) mod length ?tasks < length ?tasks" by simp
    then have "?tasks ! (draws (draws_used st) mod length ?tasks) \<in> set ?tasks" by (rule nth_mem)
    then show "to_solve st' \<in> set (to_solve_tasks st')" using n pick tasks by simp
  qed
  have c: "to_solve_tasks st' = [] \<longrightarrow>
          (\<forall>items st''. narrow draws items st' = Inr st'' \<longrightarrow>
             to_solve_tasks st'' = [] \<and> to_solve st'' = to_solve st)"
    using narrow_on_empty [of st' draws] a by auto
  from st' tasks a b c show ?thesis by blast
qed

theorem narrow_step_policy_witness:
  "narrow_step second_draw (''t2'', \<lparr>solved = [], left = [''c'']\<rparr>) after_t1 =
       Inr \<lparr>to_solve_tasks = [], to_solve = ''b'',
            tag_progress = [(''t1'', 0), (''t2'', 0)], draws_used = 2\<rparr>
   \<and> narrow second_draw [(''t3'', \<lparr>solved = [''d''], left = [''a'']\<rparr>)]
         \<lparr>to_solve_tasks = [], to_solve = ''b'',
          tag_progress = [(''t1'', 0), (''t2'', 0)], draws_used = 2\<rparr> =
       Inr \<lparr>to_solve_tasks = [], to_solve = ''b'',
            tag_progress = [(''t1'', 0), (''t2'', 0), (''t3'', 50)], draws_used = 2\<rparr>
   \<and> to_solve after_t1 = ''b''"
proof -
  have len: "0 < length (solved \<lparr>solved = [], left = [''c'']\<rparr>)
               + length (left \<lparr>solved = [], left = [''c'']\<rparr>)" by simp
  have 3: "narrow_step second_draw (''t2'', \<lparr>solved = [], left = [''c'']\<rparr>) after_t1 =
       Inr \<lparr>to_solve_tasks = [], to_solve = ''b'',
            tag_progress = [(''t1'', 0), (''t2'', 0)], draws_used = 2\<rparr>"
    by (simp add: narrow_step_def ratio_key_def choice_def second_draw_def Let_def after_t1_def)
  have 5: "narrow second_draw [(''t3'', \<lparr>solved = [''d''], left = [''a'']\<rparr>)]
         \<lparr>to_solve_tasks = [], to_solve = ''b'',
          tag_progress = [(''t1'', 0), (''t2'', 0)], draws_used = 2\<rparr> =
       Inr \<lparr>to_solve_tasks = [], to_solve = ''b'',
            tag_progress = [(''t1'', 0), (''t2'', 0), (''t3'', 50)], draws_used = 2\<rparr>"
    by (simp add: narrow_step_def ratio_key_def choice_def second_draw_def Let_def)
  from narrow_step_policy [OF len, of second_draw "''t2''" after_t1] 3 5
  show ?thesis by (simp add: after_t1_def)
qed

subsection \<open>The recommendation and the progress table\<close>

text \<open>
  Claim C3: for every non-empty slug-to-solved mapping, every cache state and every random
  draw, the slug the engine recommends is a key of the input mapping. For a non-empty
  history whose items all have a status, \<^verbatim>\<open>interpret\<close> either answers, with a slug of the
  input, or fails with an exception that a cache read raised (the reads of the title and
  of the tag names are outside any \<^verbatim>\<open>try\<close>).
\<close>

theorem interpret_pick_member:
  assumes "pairs \<noteq> []" and "\<forall>p\<in>set pairs. status p \<noteq> None"
  shows "case interpret get draws pairs of
           Inr answer \<Rightarrow> page_to_solve (fst answer) \<in> question__title_slug ` set pairs
         | Inl e \<Rightarrow> \<exists>k. get k = Inl e"
proof -
  from slug_to_solved_status_total [OF assms(2)]
  obtain sm where sm: "slug_to_solved_status pairs = Inr sm" by blast
  have keys: "fst ` set sm = question__title_slug ` set pairs"
    using slug_to_solved_status_props(2) [OF sm] .
  have "sm \<noteq> []" using keys assms(1) by auto
  with interpret_outcome [OF sm, of get draws] keys show ?thesis
    by (auto split: sum.splits)
qed

theorem interpret_pick_member_witness:
  "interpret scenario_cache first_draw scenario_pairs =
     Inr (\<lparr>page_to_solve = ''a'',
           page_to_solve_name = Text ''Problem A'',
           page_tag_progress = [(''dp'', 50), (''greedy'', 100)],
           page_tag_to_name = [(''dp'', Text ''Dynamic Programming''), (''greedy'', Text ''greedy'')]\<rparr>,
          200)
   \<and> ''a'' \<in> question__title_slug ` set scenario_pairs"
proof -
  have 1: "scenario_pairs \<noteq> []" by (simp add: scenario_pairs_def)
  have 2: "\<forall>p\<in>set scenario_pairs. status p \<noteq> None" by (simp add: scenario_pairs_def)
  from interpret_pick_member [OF 1 2, of scenario_cache first_draw] scenario_run
  show ?thesis by simp
qed

lemma sorted_map_times:
  "sorted (map f xs) \<Longrightarrow> sorted (map (\<lambda>x. f x * (100::rat)) xs)"
  by (induction xs) auto

text \<open>
  Claim C4: the tag-progress map lists the tags in non-decreasing order of their ratio,
  and every recorded value lies between 0 and 100.
\<close>

theorem tag_progress_sorted_bounded:
  assumes "interpret get draws pairs = Inr answer"
  shows "sorted (map snd (page_tag_progress (fst answer)))
       \<and> (\<forall>entry\<in>set (page_tag_progress (fst answer)). 0 \<le> snd entry \<and> snd entry \<le> 100)"
proof -
  from assms obtain sm where sm: "slug_to_solved_status pairs = Inr sm"
    by (cases "slug_to_solved_status pairs") (auto simp: interpret_def)
  from interpret_outcome [OF sm, of get draws] assms
  obtain m where st: "page_tag_progress (fst answer) =
      map (\<lambda>item. (fst item, ratio_of (snd item) * 100))
        (sort_key (\<lambda>item. ratio_of (snd item)) m)"
    by auto
  have "sorted (map (\<lambda>item. ratio_of (snd item)) (sort_key (\<lambda>item. ratio_of (snd item)) m))"
    by (rule sorted_sort_key)
  then have "sorted (map (\<lambda>item. ratio_of (snd item) * 100) (sort_key (\<lambda>item. ratio_of (snd item)) m))"
    by (rule sorted_map_times)
  then have a: "sorted (map snd (page_tag_progress (fst answer)))"
    by (simp add: st comp_def)
  have b: "\<forall>entry\<in>set (page_tag_progress (fst answer)). 0 \<le> snd entry \<and> snd entry \<le> 100"
    using ratio_of_bounds by (auto simp: st)
  from a b show ?thesis by simp
qed

theorem tag_progress_sorted_bounded_witness:
  "page_tag_progress (fst (projr (interpret scenario_cache first_draw scenario_pairs)))
      = [(''dp'', 50), (''greedy'', 100)]
   \<and> sorted (map snd [(''dp'', 50 :: rat), (''greedy'', 100)])"
  using tag_progress_sorted_bounded [OF scenario_run] by (simp add: scenario_run)

text \<open>
  Claim C5: with an empty submission history the selection fails, no recommendation is
  produced, and the failure reaches the caller: \<^verbatim>\<open>random.choice\<close> raises \<^verbatim>\<open>IndexError\<close> on the
  empty candidate list, for every cache and every draw, and the route, which the empty list
  passes the validation of, hands the exception on.
\<close>

theorem interpret_empty_input:
  "interpret get draws [] = Inl IndexError \<and> main get draws POST [] = Inl IndexError"
proof -
  have e: "slug_to_solved_status [] = Inr []" by (simp add: slug_to_solved_status_def)
  from interpret_outcome [OF e, of get draws]
  have i: "interpret get draws [] = Inl IndexError"
    by (simp add: interpret_def e tag_info_map_of_def problem_to_tags_of_def Let_def choice_def)
  then show ?thesis by (simp add: main_def validate_problems_def)
qed

text \<open>
  Claim C8: for every tag of the aggregation map the solved set and the left set are
  disjoint and hold at least one problem between them, so the denominator of the ratio is
  never zero: neither the sort key of a tag nor the sort as a whole raises.
\<close>

theorem tag_info_disjoint_nonempty:
  assumes "slug_to_solved_status pairs = Inr sm" and "tag_info_map_of get sm = Inr m"
    and "(t, ti) \<in> set m"
  shows "set (solved ti) \<inter> set (left ti) = {}
       \<and> distinct (solved ti) \<and> distinct (left ti)
       \<and> 1 \<le> length (solved ti) + length (left ti)
       \<and> (\<exists>r. ratio_key ti = Inr r)
       \<and> (\<exists>items. sorted_by_ratio m = Inr items)"
proof -
  have d: "distinct (map fst sm)" using slug_to_solved_status_props(1) [OF assms(1)] .
  note e = tag_info_entry [OF assms(2) d]
  have ne: "nonempty_tag ti" using e(6) [OF assms(3)] .
  have all: "\<forall>item\<in>set m. nonempty_tag (snd item)" using e(6) by auto
  have len: "1 \<le> length (solved ti) + length (left ti)"
    using ne unfolding nonempty_tag_def by linarith
  show ?thesis
    using e(3,4,5) [OF assms(3)] len ratio_key_value [OF ne] sorted_by_ratio_value [OF all]
    by blast
qed

theorem tag_info_disjoint_nonempty_witness:
  "tag_info_map_of scenario_cache [(''a'', False), (''b'', True)] =
     Inr [(''dp'', \<lparr>solved = [''b''], left = [''a'']\<rparr>),
          (''greedy'', \<lparr>solved = [''b''], left = []\<rparr>)]
   \<and> set [''b''] \<inter> set [''a''] = ({} :: string set)
   \<and> ratio_key \<lparr>solved = [''b''], left = [''a'']\<rparr> = Inr (1 / 2)"
proof -
  have mem: "(''dp'', \<lparr>solved = [''b''], left = [''a'']\<rparr>)
       \<in> set [(''dp'', \<lparr>solved = [''b''], left = [''a'']\<rparr>),
              (''greedy'', \<lparr>solved = [''b''], left = []\<rparr>)]" by simp
  from tag_info_disjoint_nonempty [OF scenario_status scenario_tag_info mem] scenario_tag_info
  show ?thesis by (simp add: ratio_key_def)
qed

lemma choice_reaches: "x \<in> set xs \<Longrightarrow> \<exists>r. choice r xs = Inr x"
proof -
  assume "x \<in> set xs"
  then obtain i where i: "i < length xs" "xs ! i = x" by (auto simp: in_set_conv_nth)
  then have "choice i xs = Inr x" by (auto simp: choice_def)
  then show ?thesis ..
qed

text \<open>
  Claim C7: the tag lookup never hands an error to its caller; when the cache read of a
  slug raises or finds nothing, the lookup yields the empty tag list, so the mapping from
  slug to tags is defined for every input slug, the slug joins no tag group, and it stays
  in the candidate pool: it is a key of the initial pool, from which the first pick can
  draw it.
\<close>

theorem get_tags_degraded:
  assumes "slug_to_solved_status pairs = Inr sm" and "slug \<in> fst ` set sm"
    and "get (slug @ ''_tags'') = Inl e \<or> get (slug @ ''_tags'') = Inr None"
  shows "(\<forall>s. \<exists>v. get_tags get s = Inr v)
       \<and> get_tags get slug = Inr (TagList [])
       \<and> (\<exists>ptt. problem_to_tags_of get sm = Inr ptt
             \<and> (\<forall>s\<in>fst ` set sm. \<exists>v. get_tags get s = Inr v \<and> map_of ptt s = Some v)
             \<and> map_of ptt slug = Some (TagList []))
       \<and> (\<exists>m. tag_info_map_of get sm = Inr m
             \<and> (\<forall>entry\<in>set m. slug \<notin> set (solved (snd entry)) \<and> slug \<notin> set (left (snd entry))))
       \<and> (\<exists>r. choice r (map fst sm) = Inr slug)"
proof -
  have total: "\<forall>s. \<exists>v. get_tags get s = Inr v" by (simp add: get_tags_value)
  have empty: "cached_tags get slug = TagList []"
    using assms(3) by (auto simp: cached_tags_def)
  then have here: "get_tags get slug = Inr (TagList [])" by (simp add: get_tags_value)
  obtain ptt where ptt: "problem_to_tags_of get sm = Inr ptt"
    and look: "map_of ptt = (\<lambda>s. if s \<in> fst ` set sm then Some (cached_tags get s) else None)"
    using problem_to_tags_of_value by blast
  have defined: "\<forall>s\<in>fst ` set sm. \<exists>v. get_tags get s = Inr v \<and> map_of ptt s = Some v"
    by (simp add: look get_tags_value)
  have mine: "map_of ptt slug = Some (TagList [])" using assms(2) by (simp add: look empty)
  obtain m where m: "tag_info_map_of get sm = Inr m" using tag_info_map_of_total by blast
  have d: "distinct (map fst sm)" using slug_to_solved_status_props(1) [OF assms(1)] .
  have out: "\<forall>entry\<in>set m. slug \<notin> set (solved (snd entry)) \<and> slug \<notin> set (left (snd entry))"
  proof
    fix entry assume "entry \<in> set m"
    then have mem: "(fst entry, snd entry) \<in> set m" by simp
    show "slug \<notin> set (solved (snd entry)) \<and> slug \<notin> set (left (snd entry))"
      unfolding tag_info_entry(1) [OF m d mem] tag_info_entry(2) [OF m d mem]
      by (simp add: empty)
  qed
  have pool: "\<exists>r. choice r (map fst sm) = Inr slug"
    using assms(2) by (intro choice_reaches) simp
  from total here ptt defined mine m out pool show ?thesis by blast
qed

theorem get_tags_degraded_witness:
  "get_tags flaky_cache ''a'' = Inr (TagList [])
   \<and> flaky_cache ''a_tags'' = Inl CacheError
   \<and> tag_info_map_of flaky_cache [(''a'', False), (''b'', True)] =
       Inr [(''dp'', \<lparr>solved = [''b''], left = []\<rparr>),
            (''greedy'', \<lparr>solved = [''b''], left = []\<rparr>)]
   \<and> choice 0 (map fst [(''a'', False), (''b'', True)]) = Inr ''a''"
proof -
  have in_map: "''a'' \<in> fst ` set [(''a'', False), (''b'', True)]" by simp
  have fails: "flaky_cache (''a'' @ ''_tags'') = Inl CacheError
      \<or> flaky_cache (''a'' @ ''_tags'') = Inr None"
    by (simp add: flaky_cache_def)
  from get_tags_degraded [where get = flaky_cache and e = CacheError,
      OF scenario_status in_map fails] flaky_tag_info
  show ?thesis by (simp add: flaky_cache_def choice_def)
qed

text \<open>
  Claim C10: when the history lists a slug more than once, only the status of its last
  occurrence counts; the slug is in the solved set of each of its tags when that status is
  \<^verbatim>\<open>ac\<close>, in the left set otherwise, once and never in both.
\<close>

theorem last_status_wins:
  assumes "slug_to_solved_status pairs = Inr sm" and "tag_info_map_of get sm = Inr m"
    and "(t, ti) \<in> set m"
  shows "(s \<in> set (solved ti) \<longleftrightarrow>
            (\<exists>p v. last_occurrence pairs s = Some p \<and> status p = Some (JStr ''ac'')
                 \<and> get_tags get s = Inr v \<and> t \<in> set (elements v)))
       \<and> (s \<in> set (left ti) \<longleftrightarrow>
            (\<exists>p v. last_occurrence pairs s = Some p \<and> status p \<noteq> Some (JStr ''ac'')
                 \<and> get_tags get s = Inr v \<and> t \<in> set (elements v)))
       \<and> \<not> (s \<in> set (solved ti) \<and> s \<in> set (left ti))
       \<and> distinct (solved ti) \<and> distinct (left ti)"
proof -
  have d: "distinct (map fst sm)" using slug_to_solved_status_props(1) [OF assms(1)] .
  note e = tag_info_entry [OF assms(2) d assms(3)]
  have look: "map_of sm s = map_option (\<lambda>p. status p = Some (JStr ''ac'')) (last_occurrence pairs s)"
    using slug_to_solved_status_props(3) [OF assms(1)] .
  have mem: "(s, b) \<in> set sm \<longleftrightarrow> map_of sm s = Some b" for b
    using d by simp
  have a: "s \<in> set (solved ti) \<longleftrightarrow>
            (\<exists>p v. last_occurrence pairs s = Some p \<and> status p = Some (JStr ''ac'')
                 \<and> get_tags get s = Inr v \<and> t \<in> set (elements v))"
    by (auto simp: e(1) mem look get_tags_value)
  have b: "s \<in> set (left ti) \<longleftrightarrow>
            (\<exists>p v. last_occurrence pairs s = Some p \<and> status p \<noteq> Some (JStr ''ac'')
                 \<and> get_tags get s = Inr v \<and> t \<in> set (elements v))"
    by (auto simp: e(2) mem look get_tags_value)
  have c: "\<not> (s \<in> set (solved ti) \<and> s \<in> set (left ti))" using e(5) by auto
  from a b c e(3,4) show ?thesis by blast
qed

theorem last_status_wins_witness:
  "slug_to_solved_status resubmitted_pairs = Inr [(''a'', False), (''b'', True)]
   \<and> last_occurrence resubmitted_pairs ''a''
        = Some \<lparr>question__title_slug = ''a'', status = Some JNull\<rparr>
   \<and> tag_info_map_of scenario_cache [(''a'', False), (''b'', True)] =
     Inr [(''dp'', \<lparr>solved = [''b''], left = [''a'']\<rparr>),
          (''greedy'', \<lparr>solved = [''b''], left = []\<rparr>)]
   \<and> ''a'' \<in> set (left \<lparr>solved = [''b''], left = [''a'']\<rparr>)
   \<and> ''a'' \<notin> set (solved \<lparr>solved = [''b''], left = [''a'']\<rparr>)"
proof -
  have mem: "(''dp'', \<lparr>solved = [''b''], left = [''a'']\<rparr>)
       \<in> set [(''dp'', \<lparr>solved = [''b''], left = [''a'']\<rparr>),
              (''greedy'', \<lparr>solved = [''b''], left = []\<rparr>)]" by simp
  have last: "last_occurrence resubmitted_pairs ''a''
        = Some \<lparr>question__title_slug = ''a'', status = Some JNull\<rparr>"
    by (simp add: resubmitted_pairs_def)
  from last_status_wins [OF resubmitted_status scenario_tag_info mem, of "''a''"]
    resubmitted_status scenario_tag_info last
  show ?thesis by simp
qed

end
